theory Spec2Isabelle
  imports Main
begin

section \<open>JavaScript values the store and the address book work with\<close>

text \<open>
  A thrown JavaScript \<open>Error\<close> is kept with its message; \<open>err.toString()\<close> of an
  \<open>Error\<close> is the text \<open>Error: \<close> followed by the message. Every \<open>throw\<close> and every
  rejected promise of the source is an \<open>Inl\<close> of the model.
\<close>

datatype error = Error string

fun toString :: "error \<Rightarrow> string" where
  "toString (Error m) = ''Error: '' @ m"

text \<open>
  A promise that has settled: \<open>await\<close> reads its outcome. A promise that is used without
  \<open>await\<close> is an object, and every object is truthy.
\<close>

datatype 'a promise = Promise "error + 'a"

fun await :: "'a promise \<Rightarrow> error + 'a" where
  "await (Promise r) = r"

fun truthy_promise :: "'a promise \<Rightarrow> bool" where
  "truthy_promise (Promise r) = True"

section \<open>Datastore keys\<close>

text \<open>
  \<open>Key\<close> of interface-datastore: a key is its path string. \<open>new Key(s)\<close> cleans the
  string (a leading slash is added, trailing slashes are removed, the empty string is the
  root \<open>/\<close>); \<open>child\<close> concatenates; \<open>namespaces\<close> splits at the slashes and drops the
  first, empty, piece.
\<close>

type_synonym key = string

definition clean :: "string \<Rightarrow> string" where
  "clean s =
     (let s1 = (if s = [] then ''/'' else s);
          s2 = (if hd s1 \<noteq> CHR ''/'' then CHR ''/'' # s1 else s1);
          s3 = rev (dropWhile (\<lambda>c. c = CHR ''/'') (rev s2))
      in if s3 = [] then ''/'' else s3)"

definition Key :: "string \<Rightarrow> key" where
  "Key s = clean s"

definition child :: "key \<Rightarrow> key \<Rightarrow> key" where
  "child k c = (if k = ''/'' then c else if c = ''/'' then k else Key (k @ c))"

fun split_slash :: "string \<Rightarrow> string list" where
  "split_slash [] = [[]]"
| "split_slash (c # cs) =
     (if c = CHR ''/'' then [] # split_slash cs
      else (case split_slash cs of
              [] \<Rightarrow> [[c]]
            | w # ws \<Rightarrow> (c # w) # ws))"

fun join_slash :: "string list \<Rightarrow> string" where
  "join_slash [] = []"
| "join_slash [w] = w"
| "join_slash (w # v # ws) = w @ CHR ''/'' # join_slash (v # ws)"

definition namespaces :: "key \<Rightarrow> string list" where
  "namespaces k = tl (split_slash k)"

definition withNamespaces :: "string list \<Rightarrow> key" where
  "withNamespaces ns = Key (join_slash ns)"

definition reverse :: "key \<Rightarrow> key" where
  "reverse k = withNamespaces (rev (namespaces k))"

definition parent :: "key \<Rightarrow> key" where
  "parent k =
     (let l = namespaces k
      in if length l = 1 then Key ''/'' else Key (join_slash (butlast l)))"

text \<open>
  \<open>baseNamespace\<close> reads the last namespace; on an empty list JavaScript reads
  \<open>undefined\<close>, which is \<open>None\<close> here.
\<close>

definition baseNamespace :: "key \<Rightarrow> string option" where
  "baseNamespace k = (case namespaces k of [] \<Rightarrow> None | n # ns \<Rightarrow> Some (last (n # ns)))"

text \<open>\<open>name\<close> is the part of the last namespace after its last colon.\<close>

fun split_colon :: "string \<Rightarrow> string list" where
  "split_colon [] = [[]]"
| "split_colon (c # cs) =
     (if c = CHR '':'' then [] # split_colon cs
      else (case split_colon cs of
              [] \<Rightarrow> [[c]]
            | w # ws \<Rightarrow> (c # w) # ws))"

definition name :: "key \<Rightarrow> string option" where
  "name k = (case baseNamespace k of None \<Rightarrow> None | Some n \<Rightarrow> Some (last (split_colon n)))"

definition startsWith :: "string \<Rightarrow> string \<Rightarrow> bool" where
  "startsWith s p = (take (length p) s = p)"

section \<open>The datastore\<close>

text \<open>
  A \<open>Datastore<Buffer>\<close> is its entries in insertion order, and a failure mode: when
  \<open>failure\<close> is set, every operation of the backing store rejects with that error (a
  closed or broken store). A missing key rejects with \<open>Error: Not Found\<close>.
\<close>

record 'b datastore =
  entries :: "(key \<times> 'b) list"
  failure :: "error option"

fun update_entry :: "key \<Rightarrow> 'v \<Rightarrow> (key \<times> 'v) list \<Rightarrow> (key \<times> 'v) list" where
  "update_entry k v [] = [(k, v)]"
| "update_entry k v (p # ps) = (if fst p = k then (k, v) # ps else p # update_entry k v ps)"

definition delete_entry :: "key \<Rightarrow> (key \<times> 'v) list \<Rightarrow> (key \<times> 'v) list" where
  "delete_entry k ps = filter (\<lambda>p. fst p \<noteq> k) ps"

definition ds_get :: "'b datastore \<Rightarrow> key \<Rightarrow> 'b promise" where
  "ds_get ds k =
     (case failure ds of
        Some e \<Rightarrow> Promise (Inl e)
      | None \<Rightarrow>
          (case map_of (entries ds) k of
             None \<Rightarrow> Promise (Inl (Error ''Not Found''))
           | Some v \<Rightarrow> Promise (Inr v)))"

definition ds_has :: "'b datastore \<Rightarrow> key \<Rightarrow> bool promise" where
  "ds_has ds k =
     (case failure ds of
        Some e \<Rightarrow> Promise (Inl e)
      | None \<Rightarrow> Promise (Inr (map_of (entries ds) k \<noteq> None)))"

definition ds_put :: "'b datastore \<Rightarrow> key \<Rightarrow> 'b \<Rightarrow> 'b datastore" where
  "ds_put ds k v =
     (case failure ds of
        Some e \<Rightarrow> ds
      | None \<Rightarrow> ds\<lparr>entries := update_entry k v (entries ds)\<rparr>)"

definition ds_query :: "'b datastore \<Rightarrow> string \<Rightarrow> error + (key \<times> 'b) list" where
  "ds_query ds prefix =
     (case failure ds of
        Some e \<Rightarrow> Inl e
      | None \<Rightarrow> Inr (filter (\<lambda>p. startsWith (fst p) prefix) (entries ds)))"

text \<open>
  A batch collects puts and deletes. The batch of the \<open>MemoryDatastore\<close>, the store's
  default datastore, keeps the puts and the deletes apart: \<open>commit\<close> applies the puts
  in the order they were added and then the deletes, as one unit.
\<close>

datatype 'b batch_op = Put key 'b | Del key

fun is_put :: "'b batch_op \<Rightarrow> bool" where
  "is_put (Put k v) = True"
| "is_put (Del k) = False"

fun op_key :: "'b batch_op \<Rightarrow> key" where
  "op_key (Put k v) = k"
| "op_key (Del k) = k"

fun apply_op :: "(key \<times> 'b) list \<Rightarrow> 'b batch_op \<Rightarrow> (key \<times> 'b) list" where
  "apply_op es (Put k v) = update_entry k v es"
| "apply_op es (Del k) = delete_entry k es"

definition commit :: "'b datastore \<Rightarrow> 'b batch_op list \<Rightarrow> 'b datastore" where
  "commit ds batch =
     (case failure ds of
        Some e \<Rightarrow> ds
      | None \<Rightarrow>
          ds\<lparr>entries :=
               foldl apply_op (foldl apply_op (entries ds) (filter is_put batch))
                 (filter (\<lambda>op. \<not> is_put op) batch)\<rparr>)"

section \<open>The store\<close>

text \<open>
  The three key constants of the store. \<open>CollectionKey\<close> is imported from the
  collection module.
\<close>

definition store_baseKey :: key where
  "store_baseKey = Key ''store''"

definition threadKey :: key where
  "threadKey = child store_baseKey (Key ''threadid'')"

definition schemaKey :: key where
  "schemaKey = child store_baseKey (Key ''schema'')"

text \<open>
  Modelled from the spec: the constant \<open>CollectionKey\<close> of the collection module, which
  is not among the sources; the persisted key layout gives entity state the key
  \<open>/collection/<name>/<entityID>\<close>.
\<close>

definition CollectionKey :: key where
  "CollectionKey = Key ''collection''"

text \<open>
  The type tag of a normalized action: \<open>Action.Type\<close> has \<open>Create\<close>, \<open>Save\<close> and
  \<open>Delete\<close>; \<open>Other\<close> is any value that reaches the \<open>default\<close> branch of the switch.
\<close>

datatype action_type = Create | Save | Delete | Other

record reduce_action =
  atype :: action_type

record event =
  collection :: string
  entityID :: string

text \<open>
  What the store is given from outside: the event codec's \<open>reduce\<close>, the CBOR \<open>encode\<close>
  and \<open>decode\<close>, the schema compiler (\<open>addSchema\<close> followed by \<open>compile\<close> on the Ajv
  instance, which returns the instance as it is afterwards and either a failure or the
  compiled validator), and \<open>ThreadID.fromBytes\<close>. A decoded value is \<open>'j option\<close>:
  \<open>None\<close> is \<open>undefined\<close>, which is falsy; \<open>truthy\<close> is JavaScript's truthiness of
  every other value (an object is truthy; the empty string, zero, \<open>false\<close> and
  \<open>null\<close> are not).
\<close>

record ('j, 'b, 'x, 'y, 'reg, 'val, 'tid) env =
  codec_reduce :: "'j option \<Rightarrow> 'x event_scheme \<Rightarrow> error + ('j option \<times> 'y reduce_action_scheme)"
  encode :: "'j option \<Rightarrow> 'b"
  decode :: "'b \<Rightarrow> error + 'j option"
  ajv_new :: 'reg
  addSchema_compile :: "'reg \<Rightarrow> 'j option \<Rightarrow> string \<Rightarrow> 'reg \<times> (error + 'val)"
  fromBytes :: "'b \<Rightarrow> error + 'tid"
  truthy :: "'j \<Rightarrow> bool"

record 'val collection_rec =
  cname :: string
  cvalidator :: 'val

record ('b, 'reg, 'val) store =
  datastore :: "'b datastore"
  schema :: 'reg
  collections :: "string \<rightharpoonup> 'val collection_rec"

subsection \<open>threadID\<close>

definition threadID ::
  "('j, 'b, 'x, 'y, 'reg, 'val, 'tid) env \<Rightarrow> ('b, 'reg, 'val) store \<Rightarrow> error + 'tid option" where
  "threadID env st =
     (case await (ds_get (datastore st) threadKey) of
        Inl err \<Rightarrow> Inr None
      | Inr bytes \<Rightarrow>
          (case fromBytes env bytes of
             Inl err \<Rightarrow> Inr None
           | Inr tid \<Rightarrow> Inr (Some tid)))"

subsection \<open>reduce\<close>

text \<open>
  The \<open>try\<close> block of the loop body: the prior state is read from the datastore (not
  from the batch being built) and decoded; a failure whose text is
  \<open>Error: Not Found\<close> leaves \<open>oldState\<close> undefined, any other is thrown again.
\<close>

definition load_state ::
  "('j, 'b, 'x, 'y, 'reg, 'val, 'tid) env \<Rightarrow> 'b datastore \<Rightarrow> key \<Rightarrow> error + 'j option" where
  "load_state env ds k =
     (case (case await (ds_get ds k) of Inl err \<Rightarrow> Inl err | Inr v \<Rightarrow> decode env v) of
        Inl err \<Rightarrow> if toString err \<noteq> ''Error: Not Found'' then Inl err else Inr None
      | Inr s \<Rightarrow> Inr s)"

text \<open>The test \<open>if (oldState)\<close>.\<close>

definition truthy_state :: "('j, 'b, 'x, 'y, 'reg, 'val, 'tid) env \<Rightarrow> 'j option \<Rightarrow> bool" where
  "truthy_state env s = (case s of None \<Rightarrow> False | Some v \<Rightarrow> truthy env v)"

definition entity_key :: "'x event_scheme \<Rightarrow> key" where
  "entity_key ev = child (child CollectionKey (Key (collection ev))) (Key (entityID ev))"

fun reduce_loop ::
  "('j, 'b, 'x, 'y, 'reg, 'val, 'tid) env \<Rightarrow> 'b datastore \<Rightarrow> 'b batch_op list \<Rightarrow>
   'y reduce_action_scheme list \<Rightarrow> 'x event_scheme list \<Rightarrow>
   error + ('b batch_op list \<times> 'y reduce_action_scheme list)" where
  "reduce_loop env ds batch actions [] = Inr (batch, actions)"
| "reduce_loop env ds batch actions (ev # events) =
     (let k = entity_key ev in
      case load_state env ds k of
        Inl err \<Rightarrow> Inl err
      | Inr oldState \<Rightarrow>
          (case codec_reduce env oldState ev of
             Inl err \<Rightarrow> Inl err
           | Inr (state, action) \<Rightarrow>
               (case atype action of
                  Delete \<Rightarrow> reduce_loop env ds (batch @ [Del k]) (actions @ [action]) events
                | Create \<Rightarrow>
                    if truthy_state env oldState then Inl (Error ''Existing Entity'')
                    else reduce_loop env ds (batch @ [Put k (encode env state)])
                           (actions @ [action]) events
                | Save \<Rightarrow>
                    reduce_loop env ds (batch @ [Put k (encode env state)])
                      (actions @ [action]) events
                | Other \<Rightarrow> Inl (Error ''Unknown Operation''))))"

text \<open>
  \<open>reduce\<close> returns the outcome of the call (the actions of the \<open>stateChange\<close>
  notification, or the error thrown) and the store afterwards.
\<close>

definition reduce ::
  "('j, 'b, 'x, 'y, 'reg, 'val, 'tid) env \<Rightarrow> ('b, 'reg, 'val) store \<Rightarrow> 'x event_scheme list \<Rightarrow>
   (error + 'y reduce_action_scheme list) \<times> ('b, 'reg, 'val) store" where
  "reduce env st events =
     (case reduce_loop env (datastore st) [] [] events of
        Inl err \<Rightarrow> (Inl err, st)
      | Inr (batch, actions) \<Rightarrow>
          (Inr actions, st\<lparr>datastore := commit (datastore st) batch\<rparr>))"

subsection \<open>registerSchema, registerSchemas, the constructor, getCollection\<close>

text \<open>
  The write lock serialises the calls; in this sequential model it is not a state.
  \<open>this.datastore.has(key)\<close> is used without \<open>await\<close>: \<open>exists\<close> is the promise.
\<close>

definition registerSchema ::
  "('j, 'b, 'x, 'y, 'reg, 'val, 'tid) env \<Rightarrow> ('b, 'reg, 'val) store \<Rightarrow> string \<Rightarrow> 'j option \<Rightarrow>
   (error + unit) \<times> ('b, 'reg, 'val) store" where
  "registerSchema env st nm sch =
     (if collections st nm \<noteq> None then (Inl (Error ''Already Registered''), st)
      else
        (case addSchema_compile env (schema st) sch nm of
           (reg, Inl err) \<Rightarrow> (Inl err, st\<lparr>schema := reg\<rparr>)
         | (reg, Inr compiled) \<Rightarrow>
             (let coll = \<lparr>cname = nm, cvalidator = compiled\<rparr>;
                  k = child store_baseKey (Key nm);
                  exists = ds_has (datastore st) k;
                  ds = (if \<not> truthy_promise exists
                        then ds_put (datastore st) k (encode env sch)
                        else datastore st)
              in (Inr (),
                  st\<lparr>schema := reg, datastore := ds,
                     collections := (collections st)(nm \<mapsto> coll)\<rparr>))))"

text \<open>
  The loop of \<open>registerSchemas\<close> over the query's results. The call of
  \<open>registerSchema\<close> is not awaited, so its rejection does not stop the loop; a value
  that does not decode, or a key without a name, does.
\<close>

fun registerSchemas_loop ::
  "('j, 'b, 'x, 'y, 'reg, 'val, 'tid) env \<Rightarrow> ('b, 'reg, 'val) store \<Rightarrow> (key \<times> 'b) list \<Rightarrow>
   (error + unit) \<times> ('b, 'reg, 'val) store" where
  "registerSchemas_loop env st [] = (Inr (), st)"
| "registerSchemas_loop env st (p # ps) =
     (case name (Key (fst p)) of
        None \<Rightarrow> (Inl (Error ''TypeError''), st)
      | Some nm \<Rightarrow>
          (case decode env (snd p) of
             Inl err \<Rightarrow> (Inl err, st)
           | Inr sch \<Rightarrow> registerSchemas_loop env (snd (registerSchema env st nm sch)) ps))"

definition registerSchemas ::
  "('j, 'b, 'x, 'y, 'reg, 'val, 'tid) env \<Rightarrow> ('b, 'reg, 'val) store \<Rightarrow>
   (error + unit) \<times> ('b, 'reg, 'val) store" where
  "registerSchemas env st =
     (case ds_query (datastore st) schemaKey of
        Inl err \<Rightarrow> (Inl err, st)
      | Inr found \<Rightarrow> registerSchemas_loop env st found)"

text \<open>
  The constructor: a store over the given datastore with no collection, then
  \<open>registerSchemas\<close>, whose outcome the constructor does not look at. The store is
  taken once that call has settled.
\<close>

definition new_Store ::
  "('j, 'b, 'x, 'y, 'reg, 'val, 'tid) env \<Rightarrow> 'b datastore \<Rightarrow> ('b, 'reg, 'val) store" where
  "new_Store env ds =
     snd (registerSchemas env \<lparr>datastore = ds, schema = ajv_new env, collections = Map.empty\<rparr>)"

definition getCollection :: "('b, 'reg, 'val) store \<Rightarrow> string \<Rightarrow> 'val collection_rec option" where
  "getCollection st nm = collections st nm"

section \<open>The address book\<close>

text \<open>
  The address book keeps its entries in a \<open>TTLDatastore\<close>: every entry has, beside its
  value, the time at which it expires. The backing datastore and its \<open>ttl\<close> namespace
  are taken together as one list of entries \<open>(key, value, expiration)\<close>. A put through
  a batch made with \<open>batch(ttl)\<close> gives the entry the expiration \<open>now + ttl\<close> when the
  batch commits. Times are milliseconds.

  The backing datastore can fail: \<open>has\<close> and \<open>expiration\<close> of a key reject with the
  error \<open>read_failure\<close> gives for that key, and \<open>commit\<close> rejects with
  \<open>commit_failure\<close>, applying nothing.
\<close>

record 'b ttl_backing =
  backing_entries :: "(key \<times> ('b \<times> int)) list"
  read_failure :: "key \<Rightarrow> error option"
  commit_failure :: "error option"

record ttl_options =
  opt_ttl :: int
  opt_frequency :: int

record 'b ttl_datastore =
  ttl_entries :: "(key \<times> ('b \<times> int)) list"
  ttl_opts :: ttl_options
  ttl_read_failure :: "key \<Rightarrow> error option"
  ttl_commit_failure :: "error option"

definition TTLDatastore :: "'b ttl_backing \<Rightarrow> ttl_options \<Rightarrow> 'b ttl_datastore" where
  "TTLDatastore backing opts =
     \<lparr>ttl_entries = backing_entries backing, ttl_opts = opts,
      ttl_read_failure = read_failure backing, ttl_commit_failure = commit_failure backing\<rparr>"

definition ttl_has :: "'b ttl_datastore \<Rightarrow> key \<Rightarrow> error + bool" where
  "ttl_has ds k =
     (case ttl_read_failure ds k of
        Some e \<Rightarrow> Inl e
      | None \<Rightarrow> Inr (map_of (ttl_entries ds) k \<noteq> None))"

text \<open>\<open>expiration\<close> of a key that is not there rejects; the address book asks only after \<open>has\<close>.\<close>

definition expiration :: "'b ttl_datastore \<Rightarrow> key \<Rightarrow> error + int" where
  "expiration ds k =
     (case ttl_read_failure ds k of
        Some e \<Rightarrow> Inl e
      | None \<Rightarrow>
          (case map_of (ttl_entries ds) k of
             None \<Rightarrow> Inl (Error ''Not Found'')
           | Some (v, exp) \<Rightarrow> Inr exp))"

definition ttl_query :: "'b ttl_datastore \<Rightarrow> string \<Rightarrow> (key \<times> 'b) list" where
  "ttl_query ds prefix =
     map (\<lambda>p. (fst p, fst (snd p))) (filter (\<lambda>p. startsWith (fst p) prefix) (ttl_entries ds))"

fun ttl_apply_op :: "int \<Rightarrow> (key \<times> ('b \<times> int)) list \<Rightarrow> 'b batch_op \<Rightarrow> (key \<times> ('b \<times> int)) list" where
  "ttl_apply_op exp es (Put k v) = update_entry k (v, exp) es"
| "ttl_apply_op exp es (Del k) = delete_entry k es"

definition ttl_commit ::
  "int \<Rightarrow> int \<Rightarrow> 'b ttl_datastore \<Rightarrow> 'b batch_op list \<Rightarrow> error + 'b ttl_datastore" where
  "ttl_commit now ttl ds batch =
     (case ttl_commit_failure ds of
        Some e \<Rightarrow> Inl e
      | None \<Rightarrow> Inr (ds\<lparr>ttl_entries := foldl (ttl_apply_op (now + ttl)) (ttl_entries ds) batch\<rparr>))"

text \<open>\<open>Duration.Hour\<close> of the TTL datastore: an hour.\<close>

definition Hour :: int where
  "Hour = 3600000"

text \<open>
  The constructor computes \<open>options\<close> from \<open>opts\<close> (\<open>None\<close> is a missing field or a
  missing \<open>opts\<close>; \<open>||\<close> also replaces a zero) and then builds the store with constants.
\<close>

definition or_default :: "int option \<Rightarrow> int \<Rightarrow> int" where
  "or_default v d = (case v of None \<Rightarrow> d | Some n \<Rightarrow> if n = 0 then d else n)"

definition new_AddrBook ::
  "'b ttl_backing \<Rightarrow> (int option \<times> int option) option \<Rightarrow> 'b ttl_datastore" where
  "new_AddrBook backing opts =
     (let options = \<lparr>opt_ttl = or_default (case opts of None \<Rightarrow> None | Some p \<Rightarrow> fst p) Hour,
                     opt_frequency =
                       or_default (case opts of None \<Rightarrow> None | Some p \<Rightarrow> snd p) (Hour * 2)\<rparr>
      in TTLDatastore backing \<lparr>opt_ttl = 100, opt_frequency = 20\<rparr>)"

text \<open>
  A multiaddress is its text and its bytes; a thread identifier is its encoded text.
\<close>

record 'b multiaddr =
  addr_toString :: string
  addr_buffer :: 'b

definition getKey :: "string \<Rightarrow> string \<Rightarrow> key" where
  "getKey tid log = child (Key tid) (Key log)"

definition addr_key :: "string \<Rightarrow> string \<Rightarrow> 'b multiaddr \<Rightarrow> key" where
  "addr_key tid log addr = child (getKey tid log) (Key (addr_toString addr))"

text \<open>The first loop of \<open>put\<close>, over the entries found for the log when no address is given.\<close>

fun refresh_loop :: "int \<Rightarrow> 'b batch_op list \<Rightarrow> (key \<times> 'b) list \<Rightarrow> 'b batch_op list" where
  "refresh_loop ttl batch [] = batch"
| "refresh_loop ttl batch (p # ps) =
     (if ttl \<le> 0 then refresh_loop ttl (batch @ [Del (fst p)]) ps
      else refresh_loop ttl (batch @ [Put (fst p) (snd p)]) ps)"

text \<open>
  The second loop, over the addresses given. It returns the batch, or the error of a
  rejected \<open>has\<close> or \<open>expiration\<close>, and in both cases the \<open>newAddr\<close> notifications
  emitted so far, each with the log and the whole list of addresses of the call.
\<close>

fun put_loop ::
  "int \<Rightarrow> 'b ttl_datastore \<Rightarrow> string \<Rightarrow> string \<Rightarrow> int \<Rightarrow> 'b multiaddr list \<Rightarrow>
   'b batch_op list \<Rightarrow> (string \<times> 'b multiaddr list) list \<Rightarrow> 'b multiaddr list \<Rightarrow>
   (error + 'b batch_op list) \<times> (string \<times> 'b multiaddr list) list" where
  "put_loop now ds tid log ttl addrs batch emitted [] = (Inr batch, emitted)"
| "put_loop now ds tid log ttl addrs batch emitted (addr # rest) =
     (let k = child (getKey tid log) (Key (addr_toString addr)) in
      if ttl \<le> 0 then put_loop now ds tid log ttl addrs (batch @ [Del k]) emitted rest
      else
        (case ttl_has ds k of
           Inl err \<Rightarrow> (Inl err, emitted)
         | Inr has \<Rightarrow>
             if has then
               (case expiration ds k of
                  Inl err \<Rightarrow> (Inl err, emitted)
                | Inr exp \<Rightarrow>
                    if exp < now + ttl
                    then put_loop now ds tid log ttl addrs (batch @ [Put k (addr_buffer addr)])
                           emitted rest
                    else put_loop now ds tid log ttl addrs batch emitted rest)
             else put_loop now ds tid log ttl addrs (batch @ [Put k (addr_buffer addr)])
                    (emitted @ [(log, addrs)]) rest))"

text \<open>
  \<open>put\<close> at the time \<open>now\<close>: the outcome of the call (it returns, or it rejects with
  an error) with the notifications emitted during it, and the address book afterwards.
\<close>

definition put ::
  "int \<Rightarrow> 'b ttl_datastore \<Rightarrow> string \<Rightarrow> string \<Rightarrow> int \<Rightarrow> 'b multiaddr list \<Rightarrow>
   ((error + unit) \<times> (string \<times> 'b multiaddr list) list) \<times> 'b ttl_datastore" where
  "put now ds tid log ttl addrs =
     (if length addrs = 0
      then
        (case ttl_commit now ttl ds (refresh_loop ttl [] (ttl_query ds (getKey tid log))) of
           Inl err \<Rightarrow> ((Inl err, []), ds)
         | Inr ds' \<Rightarrow> ((Inr (), []), ds'))
      else
        (case put_loop now ds tid log ttl addrs [] [] addrs of
           (Inl err, emitted) \<Rightarrow> ((Inl err, emitted), ds)
         | (Inr batch, emitted) \<Rightarrow>
             (case ttl_commit now ttl ds batch of
                Inl err \<Rightarrow> ((Inl err, emitted), ds)
              | Inr ds' \<Rightarrow> ((Inr (), emitted), ds'))))"

definition put_outcome :: "('r \<times> 'n) \<times> 'd \<Rightarrow> 'r" where
  "put_outcome r = fst (fst r)"

definition put_emitted :: "('r \<times> 'n) \<times> 'd \<Rightarrow> 'n" where
  "put_emitted r = snd (fst r)"

text \<open>Whether a key is stored in the address book.\<close>

definition stored :: "'b ttl_datastore \<Rightarrow> key \<Rightarrow> bool" where
  "stored ds k = (map_of (ttl_entries ds) k \<noteq> None)"

text \<open>
  \<open>logs\<close>: a JavaScript \<open>Set\<close> is the list of its members in insertion order. Reading
  \<open>toString\<close> of an undefined namespace is a \<open>TypeError\<close>.
\<close>

fun logs_loop :: "string list \<Rightarrow> key list \<Rightarrow> error + string list" where
  "logs_loop acc [] = Inr acc"
| "logs_loop acc (k # ks) =
     (case baseNamespace (parent (reverse k)) of
        None \<Rightarrow> Inl (Error ''TypeError'')
      | Some l \<Rightarrow> logs_loop (if l \<in> set acc then acc else acc @ [l]) ks)"

definition logs :: "'b ttl_datastore \<Rightarrow> string \<Rightarrow> error + string list" where
  "logs ds tid = logs_loop [] (map (\<lambda>p. Key (fst p)) (ttl_entries ds))"

section \<open>Concrete inputs\<close>

text \<open>
  A small codec for concrete runs: an event carries the kind of its action and a text;
  reducing appends the text to the prior state, and a delete leaves no state. Values are
  stored as they are; a state is a string, truthy when it is not empty.
\<close>

record demo_event = event +
  kind :: action_type
  patch :: string

definition example_reduce :: "string option \<Rightarrow> demo_event \<Rightarrow> error + (string option \<times> reduce_action)" where
  "example_reduce old ev =
     Inr (case kind ev of
            Delete \<Rightarrow> None
          | _ \<Rightarrow> Some ((case old of None \<Rightarrow> [] | Some s \<Rightarrow> s) @ patch ev),
          \<lparr>atype = kind ev\<rparr>)"

definition example_env ::
  "(string, string option, unit demo_event_ext, unit, (string \<times> string option) list,
    string option, string) env" where
  "example_env =
     \<lparr>codec_reduce = example_reduce,
      encode = (\<lambda>s. s),
      decode = Inr,
      ajv_new = [],
      addSchema_compile = (\<lambda>reg sch nm. ((nm, sch) # reg, Inr sch)),
      fromBytes = (\<lambda>b. case b of None \<Rightarrow> Inl (Error ''Invalid'') | Some t \<Rightarrow> Inr t),
      truthy = (\<lambda>s. s \<noteq> [])\<rparr>"

definition empty_datastore :: "string option datastore" where
  "empty_datastore = \<lparr>entries = [], failure = None\<rparr>"

definition ev :: "string \<Rightarrow> string \<Rightarrow> action_type \<Rightarrow> string \<Rightarrow> demo_event" where
  "ev c i t p = \<lparr>collection = c, entityID = i, kind = t, patch = p\<rparr>"

definition ma :: "string \<Rightarrow> string multiaddr" where
  "ma s = \<lparr>addr_toString = s, addr_buffer = s\<rparr>"

definition store0 :: "(string option, (string \<times> string option) list, string option) store" where
  "store0 = \<lparr>datastore = empty_datastore, schema = [], collections = Map.empty\<rparr>"



text \<open>A backing datastore that does not fail, and one whose commit rejects.\<close>

definition healthy :: "(key \<times> ('b \<times> int)) list \<Rightarrow> 'b ttl_backing" where
  "healthy es = \<lparr>backing_entries = es, read_failure = (\<lambda>k. None), commit_failure = None\<rparr>"

definition commit_fails :: "(key \<times> ('b \<times> int)) list \<Rightarrow> 'b ttl_backing" where
  "commit_fails es =
     \<lparr>backing_entries = es, read_failure = (\<lambda>k. None), commit_failure = Some (Error ''EIO'')\<rparr>"

definition book1 :: "string ttl_datastore" where
  "book1 =
     new_AddrBook (healthy [(''/t1/l1/ip4/1.2.3.4/tcp/80'', (''/ip4/1.2.3.4/tcp/80'', 5000))]) None"

definition book3 :: "string ttl_datastore" where
  "book3 =
     new_AddrBook (commit_fails [(''/t1/l1/ip4/1.2.3.4/tcp/80'', (''/ip4/1.2.3.4/tcp/80'', 5000))])
       None"

section \<open>What the specification compares the code with\<close>

text \<open>
  The specification's fold: the codec's \<open>reduce\<close> applied to the events of one entity
  from left to right, each event on the state the one before it produced.
\<close>

fun fold_events ::
  "('j, 'b, 'x, 'y, 'reg, 'val, 'tid) env \<Rightarrow> 'j option \<Rightarrow> 'x event_scheme list \<Rightarrow> error + 'j option" where
  "fold_events env s [] = Inr s"
| "fold_events env s (e # es) =
     (case codec_reduce env s e of
        Inl err \<Rightarrow> Inl err
      | Inr (s', a) \<Rightarrow> fold_events env s' es)"

section \<open>Predicates on batches\<close>

text \<open>
  An operation that can only extend: a put, and where its key is stored already, the
  stored expiration is before the one the put will give.
\<close>

definition extends :: "'b ttl_datastore \<Rightarrow> int \<Rightarrow> 'b batch_op \<Rightarrow> bool" where
  "extends ds bound op =
     (is_put op \<and> (case map_of (ttl_entries ds) (op_key op) of
                      None \<Rightarrow> True | Some (v, exp) \<Rightarrow> exp < bound))"

section \<open>Keys of the address book\<close>

text \<open>
  The source gives the pattern of the address book's keys:
  \<open>/thread/addrs/<thread id>/<log id>/<multiaddr string>\<close>, of which \<open>getKey\<close> and
  \<open>put\<close> write \<open>/<thread id>/<log id>/<multiaddr string>\<close>. The log of an entry is
  the second namespace of its key. A key is well formed when it is the slash followed by
  its namespaces joined with slashes, there are at least two of them, and none is empty;
  a name (a thread or log identifier) is well formed when it is not empty and has no
  slash; an address is well formed when its text is a slash followed by non-empty parts
  joined with slashes.
\<close>

definition entry_log :: "key \<Rightarrow> string" where
  "entry_log k = (case namespaces k of t # l # rest \<Rightarrow> l | _ \<Rightarrow> [])"

definition wf_entry_key :: "key \<Rightarrow> bool" where
  "wf_entry_key k =
     (let ns = namespaces k
      in k = CHR ''/'' # join_slash ns \<and> 2 \<le> length ns \<and> list_all (\<lambda>n. n \<noteq> []) ns)"

definition wf_name :: "string \<Rightarrow> bool" where
  "wf_name s = (s \<noteq> [] \<and> CHR ''/'' \<notin> set s)"

definition wf_addr :: "'b multiaddr \<Rightarrow> bool" where
  "wf_addr a =
     (let ps = namespaces (addr_toString a)
      in addr_toString a = CHR ''/'' # join_slash ps \<and> list_all (\<lambda>n. n \<noteq> []) ps)"

definition book2 :: "string ttl_datastore" where
  "book2 =
     new_AddrBook
       (healthy
          [(''/t1/l1/ip4/1.2.3.4/tcp/80'', (''/ip4/1.2.3.4/tcp/80'', 5000)),
           (''/t2/l2/ip4/5.6.7.8/tcp/80'', (''/ip4/5.6.7.8/tcp/80'', 6000))]) None"

section \<open>Entries of a datastore\<close>

lemma map_of_update_entry:
  "map_of (update_entry k v es) k' = (if k' = k then Some v else map_of es k')"
  by (induction es) auto

lemma map_of_delete_entry:
  "map_of (delete_entry k es) k' = (if k' = k then None else map_of es k')"
  by (induction es) (auto simp: delete_entry_def)

section \<open>Store.reduce\<close>

text \<open>
  C1. The claim: the stored state of an entity after a batch is the left fold of the
  codec's reduce over that entity's events, from the state stored before. The loop reads
  each event's prior state from the datastore, which the batch has not reached yet: on
  an empty store, two \<open>Save\<close> events on the same entity leave the state of the second
  event alone (\<open>b\<close>), where the fold gives \<open>ab\<close>.
\<close>

theorem reduce_two_saves_same_entity:
  "entries (datastore (snd (reduce example_env store0
      [ev ''Person'' ''1'' Save ''a'', ev ''Person'' ''1'' Save ''b''])))
     = [(''/collection/Person/1'', Some ''b'')]
   \<and> fold_events example_env None [ev ''Person'' ''1'' Save ''a'', ev ''Person'' ''1'' Save ''b'']
     = Inr (Some ''ab'')"
  by code_simp






section \<open>Schema registration\<close>

text \<open>
  C5. For every store and every name in its collection map, \<open>registerSchema\<close> with that
  name fails with \<open>Already Registered\<close> and changes nothing: the schema registry, the
  datastore and the collection map are as before, and \<open>getCollection\<close> still gives
  the collection registered first.
\<close>

theorem registerSchema_duplicate:
  assumes "collections st nm = Some c"
  shows "fst (registerSchema env st nm sch) = Inl (Error ''Already Registered'')
       \<and> snd (registerSchema env st nm sch) = st
       \<and> schema (snd (registerSchema env st nm sch)) = schema st
       \<and> datastore (snd (registerSchema env st nm sch)) = datastore st
       \<and> collections (snd (registerSchema env st nm sch)) = collections st
       \<and> getCollection (snd (registerSchema env st nm sch)) nm = Some c"
  using assms by (simp add: registerSchema_def getCollection_def)

theorem registerSchema_duplicate_witness:
  "fst (registerSchema example_env (snd (registerSchema example_env store0 ''Person'' (Some ''s1'')))
      ''Person'' (Some ''s2'')) = Inl (Error ''Already Registered'')
   \<and> getCollection (snd (registerSchema example_env
        (snd (registerSchema example_env store0 ''Person'' (Some ''s1''))) ''Person'' (Some ''s2'')))
        ''Person'' = Some \<lparr>cname = ''Person'', cvalidator = Some ''s1''\<rparr>"
proof -
  have h: "collections (snd (registerSchema example_env store0 ''Person'' (Some ''s1''))) ''Person''
           = Some \<lparr>cname = ''Person'', cvalidator = Some ''s1''\<rparr>"
    by code_simp
  from registerSchema_duplicate [OF h, of example_env "Some ''s2''"] show ?thesis by blast
qed

text \<open>
  C2. The claim: a schema registered against a datastore is found again by a new store
  over that datastore. Here \<open>Person\<close> is registered on a store over the empty
  datastore, and a new store over the datastore that call leaves has no collection
  \<open>Person\<close>; nor has a new store over a datastore that holds the schema under the key
  \<open>registerSchema\<close> computes for it.
\<close>

theorem schema_not_recovered_after_restart:
  "fst (registerSchema example_env (new_Store example_env empty_datastore) ''Person'' (Some ''s1''))
     = Inr ()
   \<and> getCollection (snd (registerSchema example_env (new_Store example_env empty_datastore)
        ''Person'' (Some ''s1''))) ''Person'' = Some \<lparr>cname = ''Person'', cvalidator = Some ''s1''\<rparr>
   \<and> getCollection (new_Store example_env (datastore (snd (registerSchema example_env
        (new_Store example_env empty_datastore) ''Person'' (Some ''s1''))))) ''Person'' = None
   \<and> getCollection (new_Store example_env (ds_put empty_datastore
        (child store_baseKey (Key ''Person'')) (encode example_env (Some ''s1'')))) ''Person'' = None"
  by code_simp

text \<open>
  C3. The claim: a successful \<open>registerSchema\<close> leaves the schema under
  \<open>/store/schema/<name>\<close>. Registering \<open>Person\<close> succeeds and the datastore stays
  empty; the key the put is written for is \<open>/store/Person\<close>, not
  \<open>/store/schema/Person\<close>.
\<close>

theorem registerSchema_persists_nothing:
  "fst (registerSchema example_env store0 ''Person'' (Some ''s1'')) = Inr ()
   \<and> entries (datastore (snd (registerSchema example_env store0 ''Person'' (Some ''s1'')))) = []
   \<and> child schemaKey (Key ''Person'') = ''/store/schema/Person''
   \<and> child store_baseKey (Key ''Person'') = ''/store/Person''"
  by code_simp

section \<open>Store.threadID\<close>

text \<open>
  C6. The claim: a datastore failure other than Not Found is raised again to the caller
  of \<open>threadID\<close>. On a datastore whose get rejects with \<open>Error: EIO\<close>, \<open>threadID\<close>
  returns undefined.
\<close>

theorem threadID_swallows_failure:
  "threadID example_env
     \<lparr>datastore = \<lparr>entries = [(''/store/threadid'', Some ''t1'')], failure = Some (Error ''EIO'')\<rparr>,
      schema = [], collections = Map.empty\<rparr> = Inr None
   \<and> await (ds_get \<lparr>entries = [(''/store/threadid'', Some ''t1'')], failure = Some (Error ''EIO'')\<rparr>
        threadKey) = Inl (Error ''EIO'')"
  by code_simp

section \<open>AddrBook.put\<close>

lemma extends_Put:
  "extends ds bound (Put k v) =
     (case map_of (ttl_entries ds) k of None \<Rightarrow> True | Some (v, exp) \<Rightarrow> exp < bound)"
  by (simp add: extends_def)

lemma extends_Del: "\<not> extends ds bound (Del k)"
  by (simp add: extends_def)

lemma extends_is_put: "list_all (extends ds bound) b \<Longrightarrow> list_all is_put b"
  by (induction b) (simp_all add: extends_def)

text \<open>One round of the loop, by what the datastore answers.\<close>

lemma put_loop_nonpos_step:
  "ttl \<le> 0 \<Longrightarrow>
   put_loop now ds tid log ttl addrs batch emitted (a # rest) =
     put_loop now ds tid log ttl addrs (batch @ [Del (addr_key tid log a)]) emitted rest"
  by (simp add: Let_def addr_key_def)

lemma put_loop_read_fails:
  "0 < ttl \<Longrightarrow> ttl_read_failure ds (addr_key tid log a) = Some err \<Longrightarrow>
   put_loop now ds tid log ttl addrs batch emitted (a # rest) = (Inl err, emitted)"
  by (simp add: Let_def addr_key_def ttl_has_def)

lemma put_loop_unseen:
  "0 < ttl \<Longrightarrow> ttl_read_failure ds (addr_key tid log a) = None \<Longrightarrow>
   map_of (ttl_entries ds) (addr_key tid log a) = None \<Longrightarrow>
   put_loop now ds tid log ttl addrs batch emitted (a # rest) =
     put_loop now ds tid log ttl addrs (batch @ [Put (addr_key tid log a) (addr_buffer a)])
       (emitted @ [(log, addrs)]) rest"
  by (simp add: Let_def addr_key_def ttl_has_def)

lemma put_loop_seen:
  "0 < ttl \<Longrightarrow> ttl_read_failure ds (addr_key tid log a) = None \<Longrightarrow>
   map_of (ttl_entries ds) (addr_key tid log a) = Some (v, exp) \<Longrightarrow>
   put_loop now ds tid log ttl addrs batch emitted (a # rest) =
     (if exp < now + ttl
      then put_loop now ds tid log ttl addrs (batch @ [Put (addr_key tid log a) (addr_buffer a)])
             emitted rest
      else put_loop now ds tid log ttl addrs batch emitted rest)"
  by (simp add: Let_def addr_key_def ttl_has_def expiration_def)

lemma put_loop_extends:
  assumes "put_loop now ds tid log ttl addrs batch emitted rest = (Inr b, em)"
    and "0 < ttl" and "list_all (extends ds (now + ttl)) batch"
  shows "list_all (extends ds (now + ttl)) b"
  using assms
proof (induction rest arbitrary: batch emitted)
  case Nil
  then show ?case by simp
next
  case (Cons a rest)
  let ?k = "addr_key tid log a"
  show ?case
  proof (cases "ttl_read_failure ds ?k")
    case (Some err)
    with Cons.prems show ?thesis by (simp add: put_loop_read_fails del: put_loop.simps)
  next
    case nofail: None
    show ?thesis
    proof (cases "map_of (ttl_entries ds) ?k")
      case None
      have "list_all (extends ds (now + ttl)) (batch @ [Put ?k (addr_buffer a)])"
        using Cons.prems(3) None by (simp add: extends_Put)
      then show ?thesis
        using Cons.IH Cons.prems(1,2)
        by (simp add: put_loop_unseen [OF Cons.prems(2) nofail None] del: put_loop.simps)
    next
      case (Some ve)
      obtain v exp where ve: "ve = (v, exp)" by (cases ve)
      note step = put_loop_seen [OF Cons.prems(2) nofail Some [unfolded ve]]
      show ?thesis
      proof (cases "exp < now + ttl")
        case True
        have "list_all (extends ds (now + ttl)) (batch @ [Put ?k (addr_buffer a)])"
          using Cons.prems(3) Some ve True by (simp add: extends_Put)
        then show ?thesis using Cons.IH Cons.prems(1,2) True
          by (simp add: step del: put_loop.simps)
      next
        case False
        then show ?thesis using Cons.IH Cons.prems by (simp add: step del: put_loop.simps)
      qed
    qed
  qed
qed

lemma foldl_extends_keeps:
  assumes "list_all (extends ds bound) batch"
    and "map_of (ttl_entries ds) k = Some (v0, e0)"
    and "map_of es k = Some (v, e)" and "e0 \<le> e"
  shows "\<exists>v' e'. map_of (foldl (ttl_apply_op bound) es batch) k = Some (v', e') \<and> e0 \<le> e'"
  using assms
proof (induction batch arbitrary: es v e)
  case Nil
  then show ?case by simp
next
  case (Cons op batch)
  from Cons.prems(1) have ext: "extends ds bound op" and rest: "list_all (extends ds bound) batch"
    by simp_all
  from ext obtain k' v' where op: "op = Put k' v'"
    by (cases op) (simp_all add: extends_Del)
  show ?case
  proof (cases "k' = k")
    case True
    with ext op Cons.prems(2) have "e0 < bound" by (simp add: extends_Put)
    moreover have "map_of (ttl_apply_op bound es op) k = Some (v', bound)"
      using op True by (simp add: map_of_update_entry)
    ultimately show ?thesis
      using Cons.IH [OF rest Cons.prems(2), of "ttl_apply_op bound es op" v' bound] by simp
  next
    case False
    then have "map_of (ttl_apply_op bound es op) k = Some (v, e)"
      using op Cons.prems(3) by (simp add: map_of_update_entry)
    then show ?thesis
      using Cons.IH [OF rest Cons.prems(2) _ Cons.prems(4)] by simp
  qed
qed

text \<open>
  C7, as amended. For every \<open>put\<close> with a positive ttl and at least one address, every
  entry stored before the call is still stored after it, with an expiration time that
  is not earlier than before.
\<close>

theorem put_never_shortens:
  assumes "0 < ttl" and "addrs \<noteq> []" and "map_of (ttl_entries ds) k = Some (v, exp)"
  shows "\<exists>v' exp'. map_of (ttl_entries (snd (put now ds tid log ttl addrs))) k = Some (v', exp')
           \<and> exp \<le> exp'"
proof -
  obtain r em where loop: "put_loop now ds tid log ttl addrs [] [] addrs = (r, em)"
    by (cases "put_loop now ds tid log ttl addrs [] [] addrs")
  show ?thesis
  proof (cases r)
    case (Inl err)
    then show ?thesis using assms(2,3) loop by (simp add: put_def)
  next
    case (Inr b)
    show ?thesis
    proof (cases "ttl_commit_failure ds")
      case (Some err)
      then show ?thesis using assms(2,3) loop Inr by (simp add: put_def ttl_commit_def)
    next
      case None
      have "list_all (extends ds (now + ttl)) b"
        using put_loop_extends [OF loop [unfolded Inr] assms(1)] by simp
      from foldl_extends_keeps [OF this assms(3) assms(3)]
      show ?thesis using assms(2) loop Inr None by (simp add: put_def ttl_commit_def)
    qed
  qed
qed

theorem put_never_shortens_witness:
  "map_of (ttl_entries (snd (put 1000 book1 ''t1'' ''l1'' 9000 [ma ''/ip4/1.2.3.4/tcp/80''])))
     ''/t1/l1/ip4/1.2.3.4/tcp/80'' = Some (''/ip4/1.2.3.4/tcp/80'', 10000)
   \<and> map_of (ttl_entries (snd (put 1000 book1 ''t1'' ''l1'' 50 [ma ''/ip4/1.2.3.4/tcp/80''])))
     ''/t1/l1/ip4/1.2.3.4/tcp/80'' = Some (''/ip4/1.2.3.4/tcp/80'', 5000)"
proof -
  have h: "map_of (ttl_entries book1) ''/t1/l1/ip4/1.2.3.4/tcp/80''
             = Some (''/ip4/1.2.3.4/tcp/80'', 5000)"
    by code_simp
  have a: "(0::int) < 9000" "[ma ''/ip4/1.2.3.4/tcp/80''] \<noteq> []" by simp_all
  from put_never_shortens [OF a h, of 1000 "''t1''" "''l1''"]
  have "\<exists>v' exp'. map_of (ttl_entries (snd (put 1000 book1 ''t1'' ''l1'' 9000
           [ma ''/ip4/1.2.3.4/tcp/80'']))) ''/t1/l1/ip4/1.2.3.4/tcp/80'' = Some (v', exp')
            \<and> 5000 \<le> exp'" .
  moreover have "map_of (ttl_entries (snd (put 1000 book1 ''t1'' ''l1'' 9000
           [ma ''/ip4/1.2.3.4/tcp/80'']))) ''/t1/l1/ip4/1.2.3.4/tcp/80''
            = Some (''/ip4/1.2.3.4/tcp/80'', 10000)"
    by code_simp
  moreover have "map_of (ttl_entries (snd (put 1000 book1 ''t1'' ''l1'' 50
           [ma ''/ip4/1.2.3.4/tcp/80'']))) ''/t1/l1/ip4/1.2.3.4/tcp/80''
            = Some (''/ip4/1.2.3.4/tcp/80'', 5000)"
    by code_simp
  ultimately show ?thesis by blast
qed

text \<open>
  C7 as stated fails twice on an address stored with expiration 5000: a \<open>put\<close> of that
  address with ttl 0 deletes it, and a \<open>put\<close> with no address and ttl 50 at time 1000
  gives it the earlier expiration 1050.
\<close>

theorem put_shortens_or_deletes_counterexample:
  "map_of (ttl_entries book1) ''/t1/l1/ip4/1.2.3.4/tcp/80'' = Some (''/ip4/1.2.3.4/tcp/80'', 5000)
   \<and> map_of (ttl_entries (snd (put 1000 book1 ''t1'' ''l1'' 0 [ma ''/ip4/1.2.3.4/tcp/80''])))
       ''/t1/l1/ip4/1.2.3.4/tcp/80'' = None
   \<and> map_of (ttl_entries (snd (put 1000 book1 ''t1'' ''l1'' 50 [])))
       ''/t1/l1/ip4/1.2.3.4/tcp/80'' = Some (''/ip4/1.2.3.4/tcp/80'', 1050)
   \<and> (1050::int) < 5000"
  by code_simp

text \<open>
  Notifications: a notification is emitted only for an address that is not stored; when
  the loop ends without a failure, the batch holds a put for every such address.
\<close>

lemma put_loop_emits_only_unseen:
  assumes "put_loop now ds tid log ttl addrs batch emitted rest = (r, em)" and "em \<noteq> []"
  shows "emitted \<noteq> [] \<or> (\<exists>a\<in>set rest. \<not> stored ds (addr_key tid log a))"
  using assms
proof (induction rest arbitrary: batch emitted)
  case Nil
  then show ?case by simp
next
  case (Cons a rest)
  let ?k = "addr_key tid log a"
  show ?case
  proof (cases "0 < ttl")
    case False
    then have "ttl \<le> 0" by simp
    from Cons.prems(1) [unfolded put_loop_nonpos_step [OF this]] Cons.IH Cons.prems(2)
    show ?thesis by auto
  next
    case pos: True
    show ?thesis
    proof (cases "ttl_read_failure ds ?k")
      case (Some err)
      with Cons.prems pos show ?thesis by (simp add: put_loop_read_fails del: put_loop.simps)
    next
      case nofail: None
      show ?thesis
      proof (cases "map_of (ttl_entries ds) ?k")
        case None
        then have "\<not> stored ds ?k" by (simp add: stored_def)
        then show ?thesis by simp
      next
        case (Some ve)
        obtain v exp where ve: "ve = (v, exp)" by (cases ve)
        note step = put_loop_seen [OF pos nofail Some [unfolded ve]]
        from Cons.prems(1) [unfolded step] Cons.IH Cons.prems(2)
        show ?thesis by (cases "exp < now + ttl") auto
      qed
    qed
  qed
qed

lemma put_loop_emitted_pos:
  assumes "put_loop now ds tid log ttl addrs batch emitted rest = (Inr b, em)" and "0 < ttl"
  shows "(em \<noteq> []) = (emitted \<noteq> [] \<or> (\<exists>a\<in>set rest. \<not> stored ds (addr_key tid log a)))
       \<and> op_key ` set batch \<subseteq> op_key ` set b
       \<and> (\<forall>a\<in>set rest. \<not> stored ds (addr_key tid log a) \<longrightarrow> addr_key tid log a \<in> op_key ` set b)"
  using assms
proof (induction rest arbitrary: batch emitted)
  case Nil
  then show ?case by auto
next
  case (Cons a rest)
  let ?k = "addr_key tid log a"
  show ?case
  proof (cases "ttl_read_failure ds ?k")
    case (Some err)
    with Cons.prems show ?thesis by (simp add: put_loop_read_fails del: put_loop.simps)
  next
    case nofail: None
    show ?thesis
    proof (cases "map_of (ttl_entries ds) ?k")
      case None
      then have unseen: "\<not> stored ds ?k" by (simp add: stored_def)
      from Cons.prems(1) [unfolded put_loop_unseen [OF Cons.prems(2) nofail None]]
      have "put_loop now ds tid log ttl addrs (batch @ [Put ?k (addr_buffer a)])
              (emitted @ [(log, addrs)]) rest = (Inr b, em)" .
      from Cons.IH [OF this Cons.prems(2)] unseen show ?thesis by auto
    next
      case (Some ve)
      obtain v exp where ve: "ve = (v, exp)" by (cases ve)
      from Some have seen: "stored ds ?k" by (simp add: stored_def)
      note step = put_loop_seen [OF Cons.prems(2) nofail Some [unfolded ve]]
      show ?thesis
      proof (cases "exp < now + ttl")
        case True
        with Cons.prems(1) [unfolded step]
        have "put_loop now ds tid log ttl addrs (batch @ [Put ?k (addr_buffer a)]) emitted rest
                = (Inr b, em)" by simp
        from Cons.IH [OF this Cons.prems(2)] seen show ?thesis by auto
      next
        case False
        with Cons.prems(1) [unfolded step]
        have "put_loop now ds tid log ttl addrs batch emitted rest = (Inr b, em)" by simp
        from Cons.IH [OF this Cons.prems(2)] seen show ?thesis by auto
      qed
    qed
  qed
qed

lemma put_loop_nonpos:
  assumes "put_loop now ds tid log ttl addrs batch emitted rest = (r, em)" and "ttl \<le> 0"
    and "list_all (\<lambda>op. \<not> is_put op) batch"
  shows "em = emitted \<and> (\<exists>b. r = Inr b \<and> list_all (\<lambda>op. \<not> is_put op) b)"
  using assms
  by (induction rest arbitrary: batch emitted) (auto simp: Let_def)

lemma foldl_puts_has:
  assumes "list_all is_put batch" and "map_of es k \<noteq> None \<or> k \<in> op_key ` set batch"
  shows "map_of (foldl (ttl_apply_op bound) es batch) k \<noteq> None"
  using assms
proof (induction batch arbitrary: es)
  case Nil
  then show ?case by simp
next
  case (Cons op batch)
  then obtain k' v' where op: "op = Put k' v'" by (cases op) simp_all
  have "map_of (ttl_apply_op bound es op) k \<noteq> None \<or> k \<in> op_key ` set batch"
    using Cons.prems(2) op by (auto simp: map_of_update_entry)
  with Cons.IH [of "ttl_apply_op bound es op"] Cons.prems(1) show ?case by simp
qed

lemma foldl_dels_absent:
  assumes "list_all (\<lambda>op. \<not> is_put op) batch" and "map_of es k = None"
  shows "map_of (foldl (ttl_apply_op bound) es batch) k = None"
  using assms
proof (induction batch arbitrary: es)
  case Nil
  then show ?case by simp
next
  case (Cons op batch)
  then obtain k' where op: "op = Del k'" by (cases op) simp_all
  have "map_of (ttl_apply_op bound es op) k = None"
    using Cons.prems(2) op by (simp add: map_of_delete_entry)
  with Cons.IH [of "ttl_apply_op bound es op"] Cons.prems(1) show ?case by simp
qed

text \<open>
  C8, as amended. During a \<open>put\<close> a \<open>newAddr\<close> notification is emitted only if one
  of the addresses given is not stored before the call; and when the call returns
  without a rejection of the datastore, a notification is emitted if and only if one of
  the addresses given was not stored before the call and is stored after it.
\<close>

theorem newAddr_iff_unseen_added:
  "(put_emitted (put now ds tid log ttl addrs) \<noteq> [] \<longrightarrow>
      (\<exists>a\<in>set addrs. \<not> stored ds (addr_key tid log a)))
   \<and> (put_outcome (put now ds tid log ttl addrs) = Inr () \<longrightarrow>
        (put_emitted (put now ds tid log ttl addrs) \<noteq> []) =
        (\<exists>a\<in>set addrs. \<not> stored ds (addr_key tid log a) \<and>
            stored (snd (put now ds tid log ttl addrs)) (addr_key tid log a)))"
proof (cases "addrs = []")
  case True
  then show ?thesis
    by (simp add: put_def put_emitted_def put_outcome_def split: sum.splits)
next
  case False
  obtain r em where loop: "put_loop now ds tid log ttl addrs [] [] addrs = (r, em)"
    by (cases "put_loop now ds tid log ttl addrs [] [] addrs")
  have em: "put_emitted (put now ds tid log ttl addrs) = em"
    using False loop by (simp add: put_def put_emitted_def split: sum.splits)
  have only: "em \<noteq> [] \<longrightarrow> (\<exists>a\<in>set addrs. \<not> stored ds (addr_key tid log a))"
    using put_loop_emits_only_unseen [OF loop] by simp
  have iff: "(em \<noteq> []) =
        (\<exists>a\<in>set addrs. \<not> stored ds (addr_key tid log a) \<and>
            stored (snd (put now ds tid log ttl addrs)) (addr_key tid log a))"
    if ok: "put_outcome (put now ds tid log ttl addrs) = Inr ()"
  proof -
    from ok False loop obtain b where r: "r = Inr b" and nofail: "ttl_commit_failure ds = None"
      by (cases r; cases "ttl_commit_failure ds")
         (simp_all add: put_def put_outcome_def ttl_commit_def)
    have after: "ttl_entries (snd (put now ds tid log ttl addrs))
                   = foldl (ttl_apply_op (now + ttl)) (ttl_entries ds) b"
      using False loop r nofail by (simp add: put_def ttl_commit_def)
    show ?thesis
    proof (cases "0 < ttl")
      case True
      note inv = put_loop_emitted_pos [OF loop [unfolded r] True]
      have puts: "list_all is_put b"
        using put_loop_extends [OF loop [unfolded r] True] by (simp add: extends_is_put)
      have "stored (snd (put now ds tid log ttl addrs)) (addr_key tid log a)"
        if "a \<in> set addrs" "\<not> stored ds (addr_key tid log a)" for a :: "'a multiaddr"
      proof -
        from inv that have "addr_key tid log a \<in> op_key ` set b" by blast
        then have "map_of (foldl (ttl_apply_op (now + ttl)) (ttl_entries ds) b)
                     (addr_key tid log a) \<noteq> None"
          using foldl_puts_has [OF puts] by blast
        then show ?thesis unfolding stored_def after by simp
      qed
      then show ?thesis using inv by auto
    next
      case nonpos: False
      then have "ttl \<le> 0" by simp
      from put_loop_nonpos [OF loop this] r
      have none: "em = []" and dels: "list_all (\<lambda>op. \<not> is_put op) b"
        by simp_all
      have "\<not> stored (snd (put now ds tid log ttl addrs)) (addr_key tid log a)"
        if "\<not> stored ds (addr_key tid log a)" for a :: "'a multiaddr"
      proof -
        from that have "map_of (ttl_entries ds) (addr_key tid log a) = None"
          unfolding stored_def by blast
        from foldl_dels_absent [OF dels this, of "now + ttl"]
        show ?thesis unfolding stored_def after by simp
      qed
      then show ?thesis using none by auto
    qed
  qed
  from only iff show ?thesis unfolding em by blast
qed

theorem newAddr_iff_unseen_added_witness:
  "put_emitted (put 1000 book1 ''t1'' ''l1'' 50 [ma ''/ip4/1.2.3.4/tcp/80'']) = []
   \<and> put_emitted
       (put 1000 book1 ''t1'' ''l1'' 50 [ma ''/ip4/1.2.3.4/tcp/80'', ma ''/ip4/5.6.7.8/tcp/80''])
     = [(''l1'', [ma ''/ip4/1.2.3.4/tcp/80'', ma ''/ip4/5.6.7.8/tcp/80''])]
   \<and> stored
       (snd (put 1000 book1 ''t1'' ''l1'' 50 [ma ''/ip4/1.2.3.4/tcp/80'', ma ''/ip4/5.6.7.8/tcp/80'']))
       (addr_key ''t1'' ''l1'' (ma ''/ip4/5.6.7.8/tcp/80''))"
proof -
  let ?seen = "[ma ''/ip4/1.2.3.4/tcp/80'']"
  have ok: "put_outcome (put 1000 book1 ''t1'' ''l1'' 50 ?seen) = Inr ()"
    by code_simp
  have known: "stored book1 (addr_key ''t1'' ''l1'' (ma ''/ip4/1.2.3.4/tcp/80''))"
    by code_simp
  from newAddr_iff_unseen_added [of 1000 book1 "''t1''" "''l1''" 50 ?seen] ok
  have "(put_emitted (put 1000 book1 ''t1'' ''l1'' 50 ?seen) \<noteq> []) =
      (\<exists>a\<in>set ?seen. \<not> stored book1 (addr_key ''t1'' ''l1'' a) \<and>
          stored (snd (put 1000 book1 ''t1'' ''l1'' 50 ?seen)) (addr_key ''t1'' ''l1'' a))"
    by blast
  with known have 1: "put_emitted (put 1000 book1 ''t1'' ''l1'' 50 ?seen) = []" by simp
  have 2: "put_emitted
       (put 1000 book1 ''t1'' ''l1'' 50 [ma ''/ip4/1.2.3.4/tcp/80'', ma ''/ip4/5.6.7.8/tcp/80''])
     = [(''l1'', [ma ''/ip4/1.2.3.4/tcp/80'', ma ''/ip4/5.6.7.8/tcp/80''])]"
    by code_simp
  have 3: "stored
       (snd (put 1000 book1 ''t1'' ''l1'' 50 [ma ''/ip4/1.2.3.4/tcp/80'', ma ''/ip4/5.6.7.8/tcp/80'']))
       (addr_key ''t1'' ''l1'' (ma ''/ip4/5.6.7.8/tcp/80''))"
    by code_simp
  from 1 2 3 show ?thesis by blast
qed

text \<open>
  C8 as stated fails where the commit rejects: the address \<open>/ip4/5.6.7.8/tcp/80\<close> is not
  stored, the \<open>put\<close> emits a notification for it, the commit rejects with \<open>Error: EIO\<close>,
  and the address is not stored after the call.
\<close>

theorem newAddr_emitted_not_added_counterexample:
  "stored book3 (addr_key ''t1'' ''l1'' (ma ''/ip4/5.6.7.8/tcp/80'')) = False
   \<and> put_emitted (put 1000 book3 ''t1'' ''l1'' 50 [ma ''/ip4/5.6.7.8/tcp/80''])
     = [(''l1'', [ma ''/ip4/5.6.7.8/tcp/80''])]
   \<and> put_outcome (put 1000 book3 ''t1'' ''l1'' 50 [ma ''/ip4/5.6.7.8/tcp/80''])
     = Inl (Error ''EIO'')
   \<and> stored (snd (put 1000 book3 ''t1'' ''l1'' 50 [ma ''/ip4/5.6.7.8/tcp/80'']))
       (addr_key ''t1'' ''l1'' (ma ''/ip4/5.6.7.8/tcp/80'')) = False"
  by code_simp

section \<open>The constructor of the address book\<close>

text \<open>
  C9. Whatever options the constructor is given, the store is built with ttl 100 and
  frequency 20; two address books over the same datastore are equal, and so are the
  outcomes of their operations.
\<close>

theorem new_AddrBook_ignores_opts:
  "new_AddrBook backing opts = TTLDatastore backing \<lparr>opt_ttl = 100, opt_frequency = 20\<rparr>
   \<and> opt_frequency (ttl_opts (new_AddrBook backing opts)) = 20
   \<and> opt_ttl (ttl_opts (new_AddrBook backing opts)) = 100
   \<and> new_AddrBook backing opts = new_AddrBook backing opts'
   \<and> put now (new_AddrBook backing opts) tid log ttl addrs
       = put now (new_AddrBook backing opts') tid log ttl addrs
   \<and> logs (new_AddrBook backing opts) tid = logs (new_AddrBook backing opts') tid"
  by (simp add: new_AddrBook_def TTLDatastore_def Let_def)

section \<open>AddrBook.logs\<close>

lemma split_slash_no_slash: "CHR ''/'' \<notin> set w \<Longrightarrow> split_slash w = [w]"
  by (induction w) auto

lemma split_slash_app:
  "CHR ''/'' \<notin> set w \<Longrightarrow> split_slash (w @ CHR ''/'' # r) = w # split_slash r"
  by (induction w) auto

lemma split_slash_parts: "w \<in> set (split_slash s) \<Longrightarrow> CHR ''/'' \<notin> set w"
  by (induction s arbitrary: w) (auto split: if_splits list.splits)

lemma split_join:
  "ws \<noteq> [] \<Longrightarrow> list_all wf_name ws \<Longrightarrow> split_slash (join_slash ws) = ws"
  by (induction ws rule: join_slash.induct)
     (auto simp: split_slash_no_slash split_slash_app wf_name_def)

lemma join_ne: "ws \<noteq> [] \<Longrightarrow> list_all wf_name ws \<Longrightarrow> join_slash ws \<noteq> []"
  by (induction ws rule: join_slash.induct) (auto simp: wf_name_def)

lemma wf_name_ends: "wf_name w \<Longrightarrow> hd w \<noteq> CHR ''/'' \<and> last w \<noteq> CHR ''/''"
  unfolding wf_name_def using hd_in_set [of w] last_in_set [of w] by metis

lemma join_hd: "ws \<noteq> [] \<Longrightarrow> list_all wf_name ws \<Longrightarrow> hd (join_slash ws) \<noteq> CHR ''/''"
proof (induction ws rule: join_slash.induct)
  case (3 w v ws)
  then have "wf_name w" by simp
  then show ?case using wf_name_ends [of w] by (simp add: hd_append wf_name_def)
qed (simp_all add: wf_name_ends)

lemma join_last: "ws \<noteq> [] \<Longrightarrow> list_all wf_name ws \<Longrightarrow> last (join_slash ws) \<noteq> CHR ''/''"
proof (induction ws rule: join_slash.induct)
  case (3 w v ws)
  then show ?case using join_ne [of "v # ws"] by simp
qed (simp_all add: wf_name_ends)

lemma split_slash_ne: "split_slash s \<noteq> []"
  by (cases s) (auto split: list.splits)

lemma clean_add:
  assumes "s \<noteq> []" "hd s \<noteq> CHR ''/''" "last s \<noteq> CHR ''/''"
  shows "clean s = CHR ''/'' # s"
proof -
  from assms(1) obtain xs x where s: "s = xs @ [x]" by (cases s rule: rev_cases) auto
  with assms(3) have "x \<noteq> CHR ''/''" by simp
  then show ?thesis using assms(1,2) s by (simp add: clean_def)
qed

lemma Key_join:
  "ws \<noteq> [] \<Longrightarrow> list_all wf_name ws \<Longrightarrow> Key (join_slash ws) = CHR ''/'' # join_slash ws"
  unfolding Key_def by (rule clean_add) (simp_all add: join_ne join_hd join_last)

lemma clean_id:
  assumes "last s \<noteq> CHR ''/''" "s \<noteq> []"
  shows "clean (CHR ''/'' # s) = CHR ''/'' # s"
proof -
  from assms(2) obtain xs x where s: "s = xs @ [x]" by (cases s rule: rev_cases) auto
  with assms(1) have "x \<noteq> CHR ''/''" by simp
  then show ?thesis using s by (simp add: clean_def)
qed

lemma namespaces_join:
  "ws \<noteq> [] \<Longrightarrow> list_all wf_name ws \<Longrightarrow> namespaces (CHR ''/'' # join_slash ws) = ws"
  by (simp add: namespaces_def split_join)

lemma wf_entry_key_names:
  assumes "wf_entry_key k"
  shows "list_all wf_name (namespaces k)"
proof -
  have "CHR ''/'' \<notin> set n" if "n \<in> set (namespaces k)" for n
    using that split_slash_parts [of n k] unfolding namespaces_def
    by (cases "split_slash k") auto
  moreover have "n \<noteq> []" if "n \<in> set (namespaces k)" for n
    using assms that by (simp add: wf_entry_key_def Let_def list_all_iff)
  ultimately show ?thesis by (simp add: list_all_iff wf_name_def)
qed

lemma log_of_wf_key:
  assumes "wf_entry_key k"
  shows "baseNamespace (parent (reverse (Key k))) = Some (entry_log k)"
proof -
  define ns where "ns = namespaces k"
  from assms have k: "k = CHR ''/'' # join_slash ns" and len: "2 \<le> length ns"
    by (simp_all add: wf_entry_key_def Let_def ns_def)
  have names: "list_all wf_name ns" using wf_entry_key_names [OF assms] by (simp add: ns_def)
  from len obtain t l rest where ns: "ns = t # l # rest"
    by (cases ns; cases "tl ns") auto
  have ne: "ns \<noteq> []" using ns by simp
  have "Key k = k"
    using clean_id [of "join_slash ns"] join_last [OF ne names] join_ne [OF ne names] k
    by (simp add: Key_def)
  then have rev: "reverse (Key k) = CHR ''/'' # join_slash (rev ns)"
    using names ne by (simp add: reverse_def withNamespaces_def ns_def [symmetric] Key_join)
  have nsrev: "namespaces (reverse (Key k)) = rev ns"
    unfolding rev using names ne by (simp add: namespaces_join)
  have "length (rev ns) \<noteq> 1" using len by simp
  moreover have bl: "butlast (rev ns) = rev (l # rest)" using ns by (simp add: butlast_append)
  moreover have names': "list_all wf_name (rev (l # rest))" using names ns by simp
  ultimately have par: "parent (reverse (Key k)) = CHR ''/'' # join_slash (rev (l # rest))"
    unfolding parent_def nsrev Let_def using Key_join [of "rev (l # rest)"] by simp
  have "namespaces (parent (reverse (Key k))) = rev (l # rest)"
    unfolding par using names' namespaces_join [of "rev (l # rest)"] by simp
  then have "baseNamespace (parent (reverse (Key k))) = Some l"
    by (cases "rev rest") (simp_all add: baseNamespace_def split: list.splits)
  moreover have "entry_log k = l"
    using ns by (simp add: entry_log_def ns_def [symmetric])
  ultimately show ?thesis by simp
qed

lemma logs_loop_wf:
  assumes "list_all wf_entry_key ks"
  shows "\<exists>ls. logs_loop acc (map Key ks) = Inr ls \<and> set ls = set acc \<union> entry_log ` set ks"
  using assms
proof (induction ks arbitrary: acc)
  case Nil
  then show ?case by simp
next
  case (Cons k ks)
  then have k: "baseNamespace (parent (reverse (Key k))) = Some (entry_log k)"
    and ks: "list_all wf_entry_key ks"
    by (simp_all add: log_of_wf_key)
  from Cons.IH [OF ks, of "if entry_log k \<in> set acc then acc else acc @ [entry_log k]"]
  show ?case using k by auto
qed

text \<open>
  C10. \<open>logs\<close> does not depend on the thread identifier it is given: for any two
  identifiers it returns the same; and over well-formed keys it returns the logs of all
  the entries of the address book.
\<close>

theorem logs_ignores_thread:
  "logs ds id1 = logs ds id2 \<and>
   (list_all (\<lambda>p. wf_entry_key (fst p)) (ttl_entries ds) \<longrightarrow>
      (\<exists>ls. logs ds id1 = Inr ls \<and> set ls = (\<lambda>p. entry_log (fst p)) ` set (ttl_entries ds)))"
proof -
  have "\<exists>ls. logs ds id1 = Inr ls \<and> set ls = (\<lambda>p. entry_log (fst p)) ` set (ttl_entries ds)"
    if "list_all (\<lambda>p. wf_entry_key (fst p)) (ttl_entries ds)"
  proof -
    from that have "list_all wf_entry_key (map fst (ttl_entries ds))"
      by (simp add: list_all_iff)
    from logs_loop_wf [OF this, of "[]"] show ?thesis
      by (simp add: logs_def comp_def image_image)
  qed
  moreover have "logs ds id1 = logs ds id2" by (simp add: logs_def)
  ultimately show ?thesis by blast
qed

theorem logs_ignores_thread_witness:
  "logs book2 ''t1'' = logs book2 ''t2'' \<and> logs book2 ''t1'' = Inr [''l1'', ''l2'']"
proof -
  have wf: "list_all (\<lambda>p. wf_entry_key (fst p)) (ttl_entries book2)"
    by code_simp
  from logs_ignores_thread [of book2 "''t1''" "''t2''"] wf
  obtain ls where eq: "logs book2 ''t1'' = logs book2 ''t2''"
    and ls: "logs book2 ''t1'' = Inr ls"
    and "set ls = (\<lambda>p. entry_log (fst p)) ` set (ttl_entries book2)"
    by blast
  have "logs book2 ''t1'' = Inr [''l1'', ''l2'']" by code_simp
  with eq show ?thesis by simp
qed

text \<open>
  The keys \<open>put\<close> writes are well formed, and their log is the log given to \<open>put\<close>.
\<close>

lemma addr_key_wf:
  assumes "wf_name t" "wf_name l" "wf_addr a"
  shows "wf_entry_key (addr_key t l a) \<and> entry_log (addr_key t l a) = l
       \<and> namespaces (addr_key t l a) = t # l # namespaces (addr_toString a)"
proof -
  define ps where "ps = namespaces (addr_toString a)"
  from assms(3) have a: "addr_toString a = CHR ''/'' # join_slash ps"
    and pne: "list_all (\<lambda>n. n \<noteq> []) ps"
    by (simp_all add: wf_addr_def Let_def ps_def)
  have "ps = namespaces (addr_toString a)" by (rule ps_def)
  also have "\<dots> = split_slash (join_slash ps)" by (simp add: namespaces_def a)
  finally have "ps \<noteq> []" using split_slash_ne [of "join_slash ps"] by simp
  have "CHR ''/'' \<notin> set n" if "n \<in> set ps" for n
    using that split_slash_parts [of n "addr_toString a"] unfolding ps_def namespaces_def
    by (cases "split_slash (addr_toString a)") auto
  with pne have pnames: "list_all wf_name ps" by (simp add: list_all_iff wf_name_def)
  have Kt: "Key t = CHR ''/'' # t" using assms(1) Key_join [of "[t]"] by simp
  have Kl: "Key l = CHR ''/'' # l" using assms(2) Key_join [of "[l]"] by simp
  have Ka: "Key (addr_toString a) = CHR ''/'' # join_slash ps"
    unfolding a Key_def using clean_id [of "join_slash ps"] join_last join_ne pnames \<open>ps \<noteq> []\<close>
    by simp
  have tl: "list_all wf_name [t, l]" using assms by simp
  have "Key (CHR ''/'' # join_slash [t, l]) = CHR ''/'' # join_slash [t, l]"
    unfolding Key_def using clean_id [of "join_slash [t, l]"] join_last [OF _ tl] join_ne [OF _ tl]
    by simp
  then have g: "getKey t l = CHR ''/'' # join_slash [t, l]"
    using assms(1,2) by (simp add: getKey_def child_def Kt Kl wf_name_def)
  have all: "list_all wf_name (t # l # ps)" using assms pnames by simp
  have j: "join_slash (t # l # ps) = t @ CHR ''/'' # l @ CHR ''/'' # join_slash ps"
    using \<open>ps \<noteq> []\<close> by (cases ps) simp_all
  have pn: "join_slash ps \<noteq> []" using join_ne pnames \<open>ps \<noteq> []\<close> by blast
  have "Key (CHR ''/'' # join_slash (t # l # ps)) = CHR ''/'' # join_slash (t # l # ps)"
    unfolding Key_def
    using clean_id [of "join_slash (t # l # ps)"] join_last [OF _ all] join_ne [OF _ all]
    by simp
  then have key: "addr_key t l a = CHR ''/'' # join_slash (t # l # ps)"
    unfolding j using pn assms(1) by (simp add: addr_key_def child_def g Ka wf_name_def)
  have nsk: "namespaces (addr_key t l a) = t # l # ps"
    unfolding key using namespaces_join [OF _ all] by simp
  have "wf_entry_key (addr_key t l a)"
    unfolding wf_entry_key_def Let_def nsk using key all by (simp add: wf_name_def list_all_iff)
  moreover have "entry_log (addr_key t l a) = l" by (simp add: entry_log_def nsk)
  ultimately show ?thesis using nsk by (simp add: ps_def)
qed

end
